theory Spec2Isabelle
  imports Complex_Main "HOL-Library.Word"
begin

section \<open>IEEE-754 binary64 values\<close>

text \<open>
  The calculator works on C \<open>double\<close> values.  A \<open>double\<close> is modelled as its 64-bit
  IEEE-754 binary64 encoding: bit 63 is the sign, bits 62..52 the biased exponent and
  bits 51..0 the fraction.  All fields are read arithmetically from the unsigned value
  of the word.  The arithmetic operators are those of IEEE-754 in the default rounding
  mode (round to nearest, ties to even), evaluated in binary64 precision, with gradual
  underflow.  The payload of a NaN result is not observable through \<open>==\<close>; every NaN
  produced by an operation is the default quiet NaN.
\<close>

type_synonym double = "64 word"

definition sign_bit :: "double \<Rightarrow> bool" where
  "sign_bit w = (2 ^ 63 \<le> unat w)"

definition magnitude :: "double \<Rightarrow> nat" where
  "magnitude w = unat w mod 2 ^ 63"

definition biased_exponent :: "double \<Rightarrow> nat" where
  "biased_exponent w = magnitude w div 2 ^ 52"

definition fraction :: "double \<Rightarrow> nat" where
  "fraction w = magnitude w mod 2 ^ 52"

definition inf_bits :: nat where
  "inf_bits = 2047 * 2 ^ 52"

definition is_nan :: "double \<Rightarrow> bool" where
  "is_nan w = (inf_bits < magnitude w)"

definition is_inf :: "double \<Rightarrow> bool" where
  "is_inf w = (magnitude w = inf_bits)"

definition is_zero :: "double \<Rightarrow> bool" where
  "is_zero w = (magnitude w = 0)"

definition is_finite :: "double \<Rightarrow> bool" where
  "is_finite w = (magnitude w < inf_bits)"

definition pack :: "bool \<Rightarrow> nat \<Rightarrow> double" where
  "pack s m = of_nat ((if s then 2 ^ 63 else 0) + m)"

definition default_nan :: double where
  "default_nan = 0x7FF8000000000000"

definition infinity :: "bool \<Rightarrow> double" where
  "infinity s = pack s inf_bits"

definition zero :: "bool \<Rightarrow> double" where
  "zero s = pack s 0"

text \<open>
  The magnitude of a finite double counted in units of \<open>2 ^ -1074\<close> (the smallest
  subnormal): a subnormal is its fraction, a normal number is its 53-bit significand
  shifted by its exponent.
\<close>

definition units_of_bits :: "nat \<Rightarrow> nat" where
  "units_of_bits m =
     (if m div 2 ^ 52 = 0 then m mod 2 ^ 52
      else (2 ^ 52 + m mod 2 ^ 52) * 2 ^ (m div 2 ^ 52 - 1))"

definition units :: "double \<Rightarrow> nat" where
  "units w = units_of_bits (magnitude w)"

definition signed_units :: "double \<Rightarrow> int" where
  "signed_units w = (if sign_bit w then - int (units w) else int (units w))"

subsection \<open>Rounding to nearest, ties to even\<close>

fun bit_length :: "nat \<Rightarrow> nat" where
  "bit_length n = (if n = 0 then 0 else Suc (bit_length (n div 2)))"

declare bit_length.simps [simp del]

text \<open>The integer nearest to the fraction \<open>n / d\<close>; a tie goes to the even neighbour.\<close>

definition rne_div :: "nat \<Rightarrow> nat \<Rightarrow> nat" where
  "rne_div n d =
     (let q = n div d; r = n mod d
      in if 2 * r < d then q
         else if d < 2 * r then q + 1
         else if even q then q else q + 1)"

text \<open>
  The magnitude bits of the double nearest to \<open>n / d\<close> units.  Results below \<open>2 ^ 53\<close>
  units keep the unit spacing (subnormals and the first binade); above, the spacing
  doubles with each further bit.  A carry out of the significand moves into the
  exponent field by itself, and whatever reaches the exponent 2047 is infinity.
\<close>

definition round_mag :: "nat \<Rightarrow> nat \<Rightarrow> nat" where
  "round_mag n d =
     (let shift = bit_length (n div d) - 53;
          m = rne_div n (d * 2 ^ shift)
      in min (shift * 2 ^ 52 + m) inf_bits)"

subsection \<open>The operators of C on doubles\<close>

definition double_of_int :: "int \<Rightarrow> double" where
  "double_of_int i = pack (i < 0) (round_mag (nat \<bar>i\<bar> * 2 ^ 1074) 1)"

text \<open>\<open>a == b\<close>: a NaN equals nothing, the two zeros are equal.\<close>

definition feq :: "double \<Rightarrow> double \<Rightarrow> bool" where
  "feq a b = (\<not> is_nan a \<and> \<not> is_nan b \<and> (a = b \<or> (is_zero a \<and> is_zero b)))"

definition fadd :: "double \<Rightarrow> double \<Rightarrow> double" where
  "fadd a b =
     (if is_nan a \<or> is_nan b then default_nan
      else if is_inf a then (if is_inf b \<and> sign_bit a \<noteq> sign_bit b then default_nan else a)
      else if is_inf b then b
      else let s = signed_units a + signed_units b
           in if s = 0 then zero (sign_bit a \<and> sign_bit b)
              else pack (s < 0) (round_mag (nat \<bar>s\<bar>) 1))"

definition fsub :: "double \<Rightarrow> double \<Rightarrow> double" where
  "fsub a b =
     (if is_nan a \<or> is_nan b then default_nan
      else if is_inf a then (if is_inf b \<and> sign_bit a = sign_bit b then default_nan else a)
      else if is_inf b then infinity (\<not> sign_bit b)
      else let s = signed_units a - signed_units b
           in if s = 0 then zero (sign_bit a \<and> \<not> sign_bit b)
              else pack (s < 0) (round_mag (nat \<bar>s\<bar>) 1))"

definition fmul :: "double \<Rightarrow> double \<Rightarrow> double" where
  "fmul a b =
     (if is_nan a \<or> is_nan b then default_nan
      else if (is_inf a \<and> is_zero b) \<or> (is_zero a \<and> is_inf b) then default_nan
      else if is_inf a \<or> is_inf b then infinity (sign_bit a \<noteq> sign_bit b)
      else pack (sign_bit a \<noteq> sign_bit b) (round_mag (units a * units b) (2 ^ 1074)))"

definition fdiv :: "double \<Rightarrow> double \<Rightarrow> double" where
  "fdiv a b =
     (if is_nan a \<or> is_nan b then default_nan
      else if (is_inf a \<and> is_inf b) \<or> (is_zero a \<and> is_zero b) then default_nan
      else if is_inf a \<or> is_zero b then infinity (sign_bit a \<noteq> sign_bit b)
      else if is_inf b then zero (sign_bit a \<noteq> sign_bit b)
      else pack (sign_bit a \<noteq> sign_bit b) (round_mag (units a * 2 ^ 1074) (units b)))"

section \<open>The calculator\<close>

text \<open>
  The four functions of \<^verbatim>\<open>src/calculator.c\<close>:

  \<^verbatim>\<open>double add(double a, double b) { return a + b; }\<close>

  \<^verbatim>\<open>double substract(double a, double b) { return a - b; }\<close>

  \<^verbatim>\<open>double multiply(double a, double b) { return a * b; }\<close>

  \<^verbatim>\<open>double divide(double a, double b) { if (b == 0) { return 0; } return a / b; }\<close>

  In \<open>divide\<close> the integer constant \<open>0\<close> is converted to \<open>double\<close> both in the comparison
  and in the \<open>return\<close>.  The name \<open>divide\<close> is taken by the division of HOL, so the
  function is called \<open>divide_calc\<close> here.
\<close>

definition add :: "double \<Rightarrow> double \<Rightarrow> double" where
  "add a b = fadd a b"

definition substract :: "double \<Rightarrow> double \<Rightarrow> double" where
  "substract a b = fsub a b"

definition multiply :: "double \<Rightarrow> double \<Rightarrow> double" where
  "multiply a b = fmul a b"

definition divide_calc :: "double \<Rightarrow> double \<Rightarrow> double" where
  "divide_calc a b = (if feq b (double_of_int 0) then double_of_int 0 else fdiv a b)"

text \<open>
  The same function over a division operator that reports being applied to a zero
  divisor instead of delivering a result.  It serves to state that \<open>divide\<close> never
  reaches such a division.
\<close>

datatype fp_error = DivisionByZero

definition fdiv_checked :: "double \<Rightarrow> double \<Rightarrow> fp_error + double" where
  "fdiv_checked a b = (if is_zero b then Inl DivisionByZero else Inr (fdiv a b))"

definition divide_checked :: "double \<Rightarrow> double \<Rightarrow> fp_error + double" where
  "divide_checked a b =
     (if feq b (double_of_int 0) then Inr (double_of_int 0) else fdiv_checked a b)"

subsection \<open>Literals\<close>

definition plus_zero :: double where
  "plus_zero = 0x0000000000000000"

definition minus_zero :: double where
  "minus_zero = 0x8000000000000000"

definition one :: double where
  "one = 0x3FF0000000000000"

definition seven :: double where
  "seven = 0x401C000000000000"

definition two :: double where
  "two = 0x4000000000000000"

definition two_and_half :: double where
  "two_and_half = 0x4004000000000000"

definition three :: double where
  "three = 0x4008000000000000"

definition four :: double where
  "four = 0x4010000000000000"

definition five :: double where
  "five = 0x4014000000000000"

definition ten :: double where
  "ten = 0x4024000000000000"

definition tenth :: double where
  "tenth = 0x3FB999999999999A"

definition fifth :: double where
  "fifth = 0x3FC999999999999A"

definition three_tenths_up :: double where
  "three_tenths_up = 0x3FD3333333333334"

definition third :: double where
  "third = 0x3FD5555555555555"

section \<open>Correct rounding as IEEE-754 states it\<close>

text \<open>
  The rational number a finite double stands for.
\<close>

definition value_of :: "double \<Rightarrow> rat" where
  "value_of w = of_int (signed_units w) / 2 ^ 1074"

text \<open>
  IEEE-754 defines the result of an arithmetic operation on finite operands as the
  infinitely precise result rounded to the format.  In the default mode
  (roundTiesToEven) the standard asks for the floating-point number nearest to the
  infinitely precise result; of two equally near ones, the one with an even least
  significant digit; and an infinitely precise result of magnitude at least
  \<open>2 ^ 1024 - 2 ^ 970\<close> rounds to the infinity of the same sign.  A nonzero exact result
  passes its sign on to the rounded one.  \<open>correctly_rounded x r\<close> says that the double
  \<open>r\<close> is the exact result \<open>x\<close> rounded in this way; it is written after the standard,
  not after the rounding function above.
\<close>

definition overflow_threshold :: rat where
  "overflow_threshold = 2 ^ 1024 - 2 ^ 970"

definition correctly_rounded :: "rat \<Rightarrow> double \<Rightarrow> bool" where
  "correctly_rounded x r =
     (if overflow_threshold \<le> \<bar>x\<bar> then is_inf r \<and> sign_bit r = (x < 0)
      else is_finite r \<and>
        (\<forall>c. is_finite c \<longrightarrow> \<bar>value_of r - x\<bar> \<le> \<bar>value_of c - x\<bar>) \<and>
        (\<forall>c. is_finite c \<and> value_of c \<noteq> value_of r \<and> \<bar>value_of c - x\<bar> = \<bar>value_of r - x\<bar>
               \<longrightarrow> even (fraction r)) \<and>
        (x \<noteq> 0 \<longrightarrow> sign_bit r = (x < 0)))"

section \<open>Encoding lemmas\<close>

lemma magnitude_less: "magnitude w < 2 ^ 63"
  by (simp add: magnitude_def)

lemma unat_pack: "m < 2 ^ 63 \<Longrightarrow> unat (pack s m) = (if s then 2 ^ 63 else 0) + m"
  unfolding pack_def unat_of_nat by simp

lemma magnitude_pack: "m < 2 ^ 63 \<Longrightarrow> magnitude (pack s m) = m"
  by (simp add: magnitude_def unat_pack)

lemma sign_bit_pack: "m < 2 ^ 63 \<Longrightarrow> sign_bit (pack s m) = s"
  by (simp add: sign_bit_def unat_pack)

lemma bit_length_0 [simp]: "bit_length 0 = 0"
  by (simp add: bit_length.simps)

lemma rne_div_0 [simp]: "rne_div 0 d = 0"
  by (simp add: rne_div_def)

lemma round_mag_0 [simp]: "round_mag 0 d = 0"
  by (simp add: round_mag_def)

lemma double_of_int_0: "double_of_int 0 = plus_zero"
  by (simp add: double_of_int_def pack_def plus_zero_def)

lemma magnitude_plus_zero: "magnitude plus_zero = 0"
  by (simp add: magnitude_def plus_zero_def)

lemma magnitude_minus_zero: "magnitude minus_zero = 0"
  by (simp add: magnitude_def minus_zero_def)

lemma magnitude_one: "magnitude one = 1023 * 2 ^ 52"
  by (simp add: magnitude_def one_def)

lemma magnitude_seven: "magnitude seven = 0x401C000000000000"
  by (simp add: magnitude_def seven_def)

lemma magnitude_default_nan: "magnitude default_nan = 0x7FF8000000000000"
  by (simp add: magnitude_def default_nan_def)

lemma is_nan_default_nan: "is_nan default_nan"
  by (simp add: is_nan_def magnitude_default_nan inf_bits_def)

lemma is_zero_plus_zero: "is_zero plus_zero"
  by (simp add: is_zero_def magnitude_plus_zero)

lemma is_zero_minus_zero: "is_zero minus_zero"
  by (simp add: is_zero_def magnitude_minus_zero)

lemma is_finite_seven: "is_finite seven"
  by (simp add: is_finite_def magnitude_seven inf_bits_def)

lemma classes_of_plus_zero: "\<not> is_nan plus_zero \<and> \<not> is_inf plus_zero \<and> is_finite plus_zero"
  by (simp add: is_nan_def is_inf_def is_finite_def magnitude_plus_zero inf_bits_def)

section \<open>Bit length and rounding of exact values\<close>

lemma bit_length_less: "n < 2 ^ bit_length n"
proof (induction n rule: bit_length.induct)
  case (1 n)
  show ?case
  proof (cases "n = 0")
    case True
    then show ?thesis by simp
  next
    case False
    with 1 have "n div 2 < 2 ^ bit_length (n div 2)" by simp
    then have "n < 2 * 2 ^ bit_length (n div 2)" by linarith
    with False show ?thesis by (subst bit_length.simps) simp
  qed
qed

lemma bit_length_ge: "n \<noteq> 0 \<Longrightarrow> 2 ^ bit_length n \<le> 2 * n"
proof (induction n rule: bit_length.induct)
  case (1 n)
  show ?case
  proof (cases "n div 2 = 0")
    case True
    with "1.prems" have "n = 1" by linarith
    then show ?thesis by (subst bit_length.simps) simp
  next
    case False
    with 1 have "2 ^ bit_length (n div 2) \<le> 2 * (n div 2)" by simp
    then have "2 * 2 ^ bit_length (n div 2) \<le> 2 * n" by linarith
    with "1.prems" show ?thesis by (subst bit_length.simps) simp
  qed
qed

lemma bit_length_eq: 
  assumes "2 ^ k \<le> n" "n < 2 ^ Suc k"
  shows "bit_length n = Suc k"
proof -
  from assms have n0: "n \<noteq> 0" by (metis less_nat_zero_code not_le zero_less_numeral zero_less_power)
  have "(2::nat) ^ k < 2 ^ bit_length n"
    using assms(1) bit_length_less [of n] by linarith
  then have a: "k < bit_length n" by (simp add: power_strict_increasing_iff)
  have "(2::nat) ^ bit_length n \<le> 2 * n" using bit_length_ge [OF n0] .
  also have "\<dots> < 2 * 2 ^ Suc k" using assms(2) by simp
  finally have lt: "(2::nat) ^ bit_length n < 2 ^ Suc (Suc k)" by simp
  have "bit_length n < Suc (Suc k)" by (rule power_less_imp_less_exp [OF _ lt]) simp
  with a show ?thesis by linarith
qed

lemma bit_length_le: 
  assumes "n < 2 ^ k"
  shows "bit_length n \<le> k"
proof (cases "n = 0")
  case True then show ?thesis by simp
next
  case False
  have "(2::nat) ^ bit_length n \<le> 2 * n" using bit_length_ge [OF False] .
  also have "\<dots> < 2 * 2 ^ k" using assms by simp
  finally have lt: "(2::nat) ^ bit_length n < 2 ^ Suc k" by simp
  have "bit_length n < Suc k" by (rule power_less_imp_less_exp [OF _ lt]) simp
  then show ?thesis by simp
qed

lemma rne_div_exact: "0 < d \<Longrightarrow> rne_div (k * d) d = k"
  by (simp add: rne_div_def)

lemma rne_div_scale: 
  assumes "0 < c"
  shows "rne_div (n * c) (d * c) = rne_div n d"
proof -
  have h1: "(n * c) div (d * c) = n div d" using assms by simp
  have h2: "(n * c) mod (d * c) = (n mod d) * c" by (simp add: mult_mod_left)
  have h3: "2 * ((n * c) mod (d * c)) < d * c \<longleftrightarrow> 2 * (n mod d) < d"
    unfolding h2 using assms by (metis mult.assoc mult_less_cancel2)
  have h4: "d * c < 2 * ((n * c) mod (d * c)) \<longleftrightarrow> d < 2 * (n mod d)"
    unfolding h2 using assms by (metis mult.assoc mult_less_cancel2)
  show ?thesis unfolding rne_div_def Let_def h1 h3 h4 by (rule refl)
qed

lemma round_mag_scale: 
  assumes "0 < c"
  shows "round_mag (n * c) (d * c) = round_mag n d"
proof -
  have "(n * c) div (d * c) = n div d" using assms by simp
  moreover have "rne_div (n * c) (d * c * 2 ^ s) = rne_div n (d * 2 ^ s)" for s
    using rne_div_scale [OF assms, of n "d * 2 ^ s"] by (simp add: mult_ac)
  ultimately show ?thesis by (simp add: round_mag_def)
qed

lemma round_mag_units_of_bits:
  assumes "m < inf_bits"
  shows "round_mag (units_of_bits m) 1 = m"
proof (cases "m div 2 ^ 52 = 0")
  case True
  then have m: "m < 2 ^ 52" by (simp add: div_eq_0_iff) 
  then have u: "units_of_bits m = m" by (simp add: units_of_bits_def)
  from m have "bit_length m \<le> 52" by (rule bit_length_le)
  then have "bit_length m - 53 = 0" by simp
  with assms show ?thesis by (simp add: round_mag_def u rne_div_exact [of 1 m, simplified])
next
  case False
  define e where "e = m div 2 ^ 52 - 1"
  define f where "f = m mod 2 ^ 52"
  have f: "f < 2 ^ 52" by (simp add: f_def)
  from False have me: "m = Suc e * 2 ^ 52 + f" by (simp add: e_def f_def)
  define sig where "sig = 2 ^ 52 + f"
  have u: "units_of_bits m = sig * 2 ^ e"
    using False by (simp add: units_of_bits_def e_def f_def sig_def)
  have "2 ^ (52 + e) \<le> sig * (2::nat) ^ e" by (simp add: power_add sig_def)
  moreover have "sig * (2::nat) ^ e < 2 ^ Suc (52 + e)"
  proof -
    have "sig * (2::nat) ^ e < (2 ^ 52 + 2 ^ 52) * 2 ^ e" using f by (simp add: sig_def)
    then show ?thesis by (simp add: power_add)
  qed
  ultimately have "bit_length (sig * 2 ^ e) = Suc (52 + e)" by (rule bit_length_eq)
  then have sh: "bit_length (units_of_bits m div 1) - 53 = e" by (simp add: u)
  have r: "rne_div (sig * 2 ^ e) (2 ^ e) = sig" by (rule rne_div_exact) simp
  have "round_mag (units_of_bits m) 1 = min (e * 2 ^ 52 + sig) inf_bits"
    unfolding round_mag_def sh Let_def by (simp add: u r)
  also have "e * 2 ^ 52 + sig = m" by (simp add: me sig_def)
  finally show ?thesis using assms by simp
qed

section \<open>Signs, magnitudes and the classes of doubles\<close>

lemma unat_decompose: "unat w = (if sign_bit w then 2 ^ 63 else 0) + magnitude w"
proof (cases "sign_bit w")
  case True
  then have ge: "(2::nat) ^ 63 \<le> unat w" by (simp add: sign_bit_def)
  have "unat w < 2 ^ 64" using unsigned_less [of w, where 'a = nat] by simp
  with ge have "unat w - 2 ^ 63 < 2 ^ 63" by simp
  then have "(unat w - 2 ^ 63) mod 2 ^ 63 = unat w - 2 ^ 63" by (rule mod_less)
  with ge have "unat w mod 2 ^ 63 = unat w - 2 ^ 63" by (simp add: le_mod_geq)
  with ge True show ?thesis by (simp add: magnitude_def)
next
  case False
  then have "unat w < 2 ^ 63" by (simp add: sign_bit_def)
  with False show ?thesis by (simp add: magnitude_def)
qed

lemma pack_sign_magnitude: "pack (sign_bit w) (magnitude w) = w"
  unfolding pack_def unat_decompose [symmetric] by simp

lemma double_eqI:
  assumes "sign_bit a = sign_bit b" "magnitude a = magnitude b"
  shows "a = b"
proof -
  have "pack (sign_bit a) (magnitude a) = pack (sign_bit b) (magnitude b)"
    using assms by simp
  then show ?thesis by (simp only: pack_sign_magnitude)
qed

lemma units_one: "units one = 2 ^ 1074"
  by (simp add: units_def magnitude_one units_of_bits_def)

lemma sign_bit_one: "\<not> sign_bit one"
  by (simp add: sign_bit_def one_def)

lemma sign_bit_plus_zero: "\<not> sign_bit plus_zero"
  by (simp add: sign_bit_def plus_zero_def)

lemma units_of_bits_eq_0: "units_of_bits m = 0 \<longleftrightarrow> m = 0"
proof
  assume "units_of_bits m = 0"
  then show "m = 0"
    by (auto simp: units_of_bits_def div_eq_0_iff split: if_splits)
qed (simp add: units_of_bits_def)

lemma units_eq_0: "units a = 0 \<longleftrightarrow> is_zero a"
  by (simp add: units_def units_of_bits_eq_0 is_zero_def)

lemma round_mag_units: "is_finite a \<Longrightarrow> round_mag (units a) 1 = magnitude a"
  unfolding units_def is_finite_def by (rule round_mag_units_of_bits)

lemma zero_False: "zero False = plus_zero"
  by (simp add: zero_def pack_def plus_zero_def)

lemma class_cases: "is_nan a \<or> is_inf a \<or> is_finite a"
  by (auto simp: is_nan_def is_inf_def is_finite_def)

lemma is_inf_eq: "is_inf a \<Longrightarrow> a = infinity (sign_bit a)"
  using pack_sign_magnitude [of a] by (simp add: infinity_def is_inf_def)

lemma feq_refl: "\<not> is_nan a \<Longrightarrow> feq a a"
  by (simp add: feq_def)

lemma classes_of_one: "\<not> is_nan one \<and> \<not> is_inf one \<and> \<not> is_zero one \<and> is_finite one"
  by (simp add: is_nan_def is_inf_def is_zero_def is_finite_def magnitude_one inf_bits_def)

lemma fadd_plus_zero:
  assumes "\<not> is_nan a"
  shows "feq (fadd a plus_zero) a"
proof (cases "is_inf a")
  case True
  with assms show ?thesis by (simp add: fadd_def classes_of_plus_zero feq_refl)
next
  case False
  with assms class_cases [of a] have fin: "is_finite a" by blast
  have z: "signed_units plus_zero = 0"
    by (simp add: signed_units_def units_def magnitude_plus_zero units_of_bits_def)
  then have s: "signed_units a + signed_units plus_zero = signed_units a" by simp
  show ?thesis
  proof (cases "is_zero a")
    case True
    then have "signed_units a = 0" by (simp add: signed_units_def units_eq_0 [symmetric])
    then have "fadd a plus_zero = plus_zero"
      using assms False
      by (simp add: fadd_def classes_of_plus_zero z sign_bit_plus_zero zero_False)
    with True assms show ?thesis
      by (simp add: feq_def classes_of_plus_zero is_zero_plus_zero)
  next
    case nz: False
    then have u: "units a \<noteq> 0" by (simp add: units_eq_0)
    then have "signed_units a \<noteq> 0" "signed_units a < 0 \<longleftrightarrow> sign_bit a"
      "nat \<bar>signed_units a\<bar> = units a"
      by (auto simp: signed_units_def)
    then have "fadd a plus_zero = pack (sign_bit a) (round_mag (units a) 1)"
      using assms False by (simp add: fadd_def classes_of_plus_zero s)
    then have "fadd a plus_zero = a"
      by (simp only: round_mag_units [OF fin] pack_sign_magnitude)
    with assms show ?thesis by (simp add: feq_refl)
  qed
qed

lemma round_mag_cancel:
  assumes "is_finite a" "0 < c"
  shows "round_mag (units a * c) c = magnitude a"
proof -
  have "round_mag (units a * c) (1 * c) = round_mag (units a) 1"
    using assms(2) by (rule round_mag_scale)
  then show ?thesis
    unfolding mult_1 by (simp only: round_mag_units [OF assms(1)])
qed

lemma fmul_one:
  assumes "\<not> is_nan a"
  shows "feq (fmul a one) a"
proof (cases "is_inf a")
  case True
  with assms is_inf_eq [OF True] show ?thesis
    by (simp add: fmul_def classes_of_one sign_bit_one feq_refl)
next
  case False
  with assms class_cases [of a] have fin: "is_finite a" by blast
  from assms False have "fmul a one = pack (sign_bit a) (round_mag (units a * 2 ^ 1074) (2 ^ 1074))"
    by (simp add: fmul_def classes_of_one sign_bit_one units_one)
  then have "fmul a one = a"
    by (simp add: round_mag_cancel [OF fin] pack_sign_magnitude)
  with assms show ?thesis by (simp add: feq_refl)
qed

lemma fdiv_one:
  assumes "\<not> is_nan a"
  shows "feq (fdiv a one) a"
proof (cases "is_inf a")
  case True
  with assms is_inf_eq [OF True] show ?thesis
    by (simp add: fdiv_def classes_of_one sign_bit_one feq_refl)
next
  case False
  with assms class_cases [of a] have fin: "is_finite a" by blast
  from assms False have "fdiv a one = pack (sign_bit a) (round_mag (units a * 2 ^ 1074) (2 ^ 1074))"
    by (simp add: fdiv_def classes_of_one sign_bit_one units_one)
  then have "fdiv a one = a"
    by (simp add: round_mag_cancel [OF fin] pack_sign_magnitude)
  with assms show ?thesis by (simp add: feq_refl)
qed

lemma fadd_finite:
  "is_finite a \<Longrightarrow> is_finite b \<Longrightarrow>
     fadd a b =
       (let s = signed_units a + signed_units b
        in if s = 0 then zero (sign_bit a \<and> sign_bit b)
           else pack (s < 0) (round_mag (nat \<bar>s\<bar>) 1))"
  by (simp add: fadd_def is_finite_def is_nan_def is_inf_def)

lemma fadd_commute: "fadd a b = fadd b a"
proof (cases "is_nan a \<or> is_nan b")
  case True
  then show ?thesis by (auto simp: fadd_def)
next
  case nn: False
  show ?thesis
  proof (cases "is_inf a")
    case ia: True
    show ?thesis
    proof (cases "is_inf b")
      case ib: True
      show ?thesis
      proof (cases "sign_bit a = sign_bit b")
        case True
        with ia ib have "a = b" by (simp add: double_eqI is_inf_def)
        then show ?thesis by simp
      next
        case False
        with nn ia ib show ?thesis by (auto simp: fadd_def)
      qed
    next
      case False
      with nn ia show ?thesis by (simp add: fadd_def)
    qed
  next
    case na: False
    show ?thesis
    proof (cases "is_inf b")
      case True
      with nn na show ?thesis by (simp add: fadd_def)
    next
      case False
      with nn na class_cases [of a] class_cases [of b]
      have "is_finite a" "is_finite b" by blast+
      then show ?thesis
        by (simp add: fadd_finite Let_def add.commute conj_commute)
    qed
  qed
qed

lemma fmul_commute: "fmul a b = fmul b a"
proof -
  have "(sign_bit a \<noteq> sign_bit b) = (sign_bit b \<noteq> sign_bit a)" by blast
  moreover have "units a * units b = units b * units a" by simp
  moreover have "(is_nan a \<or> is_nan b) = (is_nan b \<or> is_nan a)" by blast
  moreover have "(is_inf a \<or> is_inf b) = (is_inf b \<or> is_inf a)" by blast
  moreover have "(is_inf a \<and> is_zero b \<or> is_zero a \<and> is_inf b) = (is_inf b \<and> is_zero a \<or> is_zero b \<and> is_inf a)" by blast
  ultimately show ?thesis unfolding fmul_def by (simp only:)
qed

lemma inf_bits_less: "inf_bits < 2 ^ 63"
  by (simp add: inf_bits_def)

lemma round_mag_le: "round_mag n d \<le> inf_bits"
  by (simp add: round_mag_def Let_def)

lemma magnitude_pack_round: "magnitude (pack s (round_mag n d)) = round_mag n d"
proof -
  have "round_mag n d < 2 ^ 63"
    using round_mag_le [of n d] inf_bits_less by (rule le_less_trans)
  then show ?thesis by (rule magnitude_pack)
qed

lemma sign_bit_pack_round: "sign_bit (pack s (round_mag n d)) = s"
proof -
  have "round_mag n d < 2 ^ 63"
    using round_mag_le [of n d] inf_bits_less by (rule le_less_trans)
  then show ?thesis by (rule sign_bit_pack)
qed

lemma not_nan_pack_round: "\<not> is_nan (pack s (round_mag n d))"
  using round_mag_le [of n d] by (simp add: is_nan_def magnitude_pack_round)

lemma magnitude_zero: "magnitude (zero s) = 0"
  by (simp add: zero_def magnitude_pack)

lemma not_nan_zero: "\<not> is_nan (zero s)"
  by (simp add: is_nan_def magnitude_zero)

lemma fadd_finite_not_nan: "is_finite a \<Longrightarrow> is_finite b \<Longrightarrow> \<not> is_nan (fadd a b)"
  by (simp add: fadd_finite Let_def not_nan_pack_round not_nan_zero)

lemma fmul_finite:
  "is_finite a \<Longrightarrow> is_finite b \<Longrightarrow>
     fmul a b = pack (sign_bit a \<noteq> sign_bit b) (round_mag (units a * units b) (2 ^ 1074))"
  unfolding fmul_def by (simp add: is_finite_def is_nan_def is_inf_def del: power_numeral)

lemma fmul_finite_not_nan: "is_finite a \<Longrightarrow> is_finite b \<Longrightarrow> \<not> is_nan (fmul a b)"
  by (simp only: fmul_finite not_nan_pack_round not_False_eq_True)

lemma not_nan_seven: "\<not> is_nan seven"
  by (simp add: is_nan_def magnitude_seven inf_bits_def)


section \<open>The classes in terms of the exponent and fraction fields\<close>

lemma magnitude_fields: "magnitude w = biased_exponent w * 2 ^ 52 + fraction w"
  by (simp add: biased_exponent_def fraction_def)

lemma fraction_less: "fraction w < 2 ^ 52"
  by (simp add: fraction_def)

lemma biased_exponent_le: "biased_exponent w \<le> 2047"
proof -
  have "magnitude w < 2048 * 2 ^ 52" using magnitude_less [of w] by simp
  then have "magnitude w div 2 ^ 52 < 2048" by (simp only: div_less_iff_less_mult zero_less_power zero_less_numeral)
  then show ?thesis by (simp add: biased_exponent_def)
qed

lemma field_order:
  fixes b e f :: nat
  assumes "f < b"
  shows "e * b + f < k * b \<longleftrightarrow> e < k"
proof
  assume "e * b + f < k * b"
  then have "e * b < k * b" by linarith
  moreover from assms have "0 < b" by simp
  ultimately show "e < k" by simp
next
  assume "e < k"
  then have "Suc e * b \<le> k * b" by (intro mult_le_mono1) simp
  with assms show "e * b + f < k * b" by simp
qed

lemma is_finite_fields: "is_finite w \<longleftrightarrow> biased_exponent w < 2047"
  unfolding is_finite_def inf_bits_def magnitude_fields using fraction_less by (rule field_order)

lemma is_inf_fields: "is_inf w \<longleftrightarrow> biased_exponent w = 2047 \<and> fraction w = 0"
proof
  assume "is_inf w"
  then have m: "magnitude w = 2047 * 2 ^ 52" by (simp add: is_inf_def inf_bits_def)
  then have "biased_exponent w = 2047" by (simp add: biased_exponent_def)
  moreover from m have "fraction w = 0" by (simp add: fraction_def)
  ultimately show "biased_exponent w = 2047 \<and> fraction w = 0" by simp
next
  assume "biased_exponent w = 2047 \<and> fraction w = 0"
  then show "is_inf w" by (simp add: is_inf_def inf_bits_def magnitude_fields)
qed

lemma is_nan_fields: "is_nan w \<longleftrightarrow> biased_exponent w = 2047 \<and> fraction w \<noteq> 0"
proof -
  have "is_nan w \<longleftrightarrow> \<not> is_finite w \<and> \<not> is_inf w"
    by (auto simp: is_nan_def is_finite_def is_inf_def)
  then show ?thesis
    using biased_exponent_le [of w] by (auto simp: is_finite_fields is_inf_fields)
qed

lemma is_zero_fields: "is_zero w \<longleftrightarrow> biased_exponent w = 0 \<and> fraction w = 0"
  by (simp add: is_zero_def magnitude_fields)

lemma units_fields:
  "units w =
     (if biased_exponent w = 0 then fraction w
      else (2 ^ 52 + fraction w) * 2 ^ (biased_exponent w - 1))"
  by (simp only: units_def units_of_bits_def biased_exponent_def fraction_def)


section \<open>Rounding a fraction to the nearest integer\<close>

lemma of_nat_gap:
  assumes "j \<noteq> (m::nat)"
  shows "1 \<le> \<bar>(of_nat j :: rat) - of_nat m\<bar>"
proof (cases "j < m")
  case True
  then have "Suc j \<le> m" by simp
  then have "(of_nat (Suc j) :: rat) \<le> of_nat m" by (simp only: of_nat_le_iff)
  then show ?thesis by simp
next
  case False
  with assms have "Suc m \<le> j" by simp
  then have "(of_nat (Suc m) :: rat) \<le> of_nat j" by (simp only: of_nat_le_iff)
  then show ?thesis by simp
qed

lemma rne_div_split:
  assumes "0 < d"
  obtains rho :: rat where
    "of_nat n / of_nat d = of_nat (n div d) + rho" "0 \<le> rho" "rho < 1"
    "2 * (n mod d) < d \<longleftrightarrow> rho < 1 / 2" "d < 2 * (n mod d) \<longleftrightarrow> 1 / 2 < rho"
proof
  let ?rho = "of_nat (n mod d) / of_nat d :: rat"
  from assms have d: "(0::rat) < of_nat d" by simp
  have "(of_nat n :: rat) = of_nat (n div d * d + n mod d)" by simp
  also have "\<dots> = of_nat (n div d) * of_nat d + of_nat (n mod d)" by (simp only: of_nat_add of_nat_mult)
  finally show "of_nat n / of_nat d = of_nat (n div d) + ?rho"
    using d by (simp add: field_simps)
  show "0 \<le> ?rho" by simp
  have "n mod d < d" using assms by simp
  then have "(of_nat (n mod d) :: rat) < of_nat d" by (simp only: of_nat_less_iff)
  then show "?rho < 1" using d by (simp add: field_simps)
  have "2 * (n mod d) < d \<longleftrightarrow> (of_nat (2 * (n mod d)) :: rat) < of_nat d"
    by (simp only: of_nat_less_iff)
  also have "\<dots> \<longleftrightarrow> ?rho < 1 / 2" using d by (simp add: field_simps)
  finally show "2 * (n mod d) < d \<longleftrightarrow> ?rho < 1 / 2" .
  have "d < 2 * (n mod d) \<longleftrightarrow> (of_nat d :: rat) < of_nat (2 * (n mod d))"
    by (simp only: of_nat_less_iff)
  also have "\<dots> \<longleftrightarrow> 1 / 2 < ?rho" using d by (simp add: field_simps)
  finally show "d < 2 * (n mod d) \<longleftrightarrow> 1 / 2 < ?rho" .
qed

lemma rne_div_err:
  assumes "0 < d"
  shows "\<bar>of_nat (rne_div n d) - (of_nat n / of_nat d :: rat)\<bar> \<le> 1 / 2"
proof -
  from assms obtain rho :: rat where
    r: "of_nat n / of_nat d = of_nat (n div d) + rho" "0 \<le> rho" "rho < 1"
    "2 * (n mod d) < d \<longleftrightarrow> rho < 1 / 2" "d < 2 * (n mod d) \<longleftrightarrow> 1 / 2 < rho"
    by (rule rne_div_split)
  show ?thesis
    unfolding r(1) rne_div_def Let_def using r(2-5) by (auto simp: abs_if)
qed

lemma rne_div_tie:
  assumes "0 < d" "\<bar>of_nat (rne_div n d) - (of_nat n / of_nat d :: rat)\<bar> = 1 / 2"
  shows "even (rne_div n d)"
proof -
  from assms(1) obtain rho :: rat where
    r: "of_nat n / of_nat d = of_nat (n div d) + rho" "0 \<le> rho" "rho < 1"
    "2 * (n mod d) < d \<longleftrightarrow> rho < 1 / 2" "d < 2 * (n mod d) \<longleftrightarrow> 1 / 2 < rho"
    by (rule rne_div_split)
  show ?thesis
    using assms(2) unfolding r(1) rne_div_def Let_def using r(2-5)
    by (auto simp: abs_if split: if_splits)
qed

lemma nearest_int:
  assumes "\<bar>of_nat m - y\<bar> \<le> 1 / 2"
  shows "\<bar>of_nat m - y\<bar> \<le> \<bar>of_nat j - (y::rat)\<bar>"
proof (cases "j = m")
  case True
  then show ?thesis by simp
next
  case False
  then have "1 \<le> \<bar>(of_nat j :: rat) - of_nat m\<bar>" by (rule of_nat_gap)
  with assms show ?thesis by linarith
qed

lemma tie_int:
  assumes "\<bar>of_nat m - y\<bar> \<le> 1 / 2" "j \<noteq> m" "\<bar>of_nat j - (y::rat)\<bar> = \<bar>of_nat m - y\<bar>"
  shows "\<bar>of_nat m - y\<bar> = 1 / 2"
proof -
  from assms(2) have "1 \<le> \<bar>(of_nat j :: rat) - of_nat m\<bar>" by (rule of_nat_gap)
  with assms(1,3) show ?thesis by linarith
qed

lemma nearest_lower:
  assumes "\<bar>of_nat m - y\<bar> \<le> 1 / 2" "of_nat k \<le> (y::rat)"
  shows "k \<le> m"
proof (rule ccontr)
  assume "\<not> k \<le> m"
  then have "Suc m \<le> k" by simp
  then have "(of_nat (Suc m) :: rat) \<le> of_nat k" by (simp only: of_nat_le_iff)
  then have "(of_nat m :: rat) + 1 \<le> of_nat k" by simp
  with assms show False by linarith
qed

lemma nearest_upper:
  assumes "\<bar>of_nat m - y\<bar> \<le> 1 / 2" "(y::rat) \<le> of_nat k"
  shows "m \<le> k"
proof (rule ccontr)
  assume "\<not> m \<le> k"
  then have "Suc k \<le> m" by simp
  then have "(of_nat (Suc k) :: rat) \<le> of_nat m" by (simp only: of_nat_le_iff)
  then have "(of_nat k :: rat) + 1 \<le> of_nat m" by simp
  with assms show False by linarith
qed

section \<open>The rounding function delivers a nearest double\<close>

lemma round_mag_decomp:
  fixes n d :: nat
  assumes d: "0 < d"
  obtains s m where
    "round_mag n d = min (s * 2 ^ 52 + m) inf_bits"
    "\<bar>of_nat m - (of_nat n / of_nat d :: rat) / 2 ^ s\<bar> \<le> 1 / 2"
    "\<bar>of_nat m - (of_nat n / of_nat d :: rat) / 2 ^ s\<bar> = 1 / 2 \<longrightarrow> even m"
    "m \<le> 2 ^ 53"
    "s = 0 \<or> 2 ^ 52 \<le> m"
    "s = 0 \<or> (2 :: rat) ^ (52 + s) \<le> of_nat n / of_nat d"
    "(of_nat n / of_nat d :: rat) < 2 ^ (53 + s)"
proof -
  define x :: rat where "x = of_nat n / of_nat d"
  define fl where "fl = n div d"
  define s where "s = bit_length fl - 53"
  define m where "m = rne_div n (d * 2 ^ s)"
  define y :: rat where "y = x / 2 ^ s"
  from d obtain rho :: rat where "x = of_nat fl + rho" "0 \<le> rho" "rho < 1"
    unfolding x_def fl_def by (rule rne_div_split)
  then have fl_le: "of_nat fl \<le> x" and x_less: "x < of_nat fl + 1" by simp_all
  have "Suc fl \<le> 2 ^ bit_length fl" using bit_length_less [of fl] by simp
  then have "(of_nat (Suc fl) :: rat) \<le> of_nat (2 ^ bit_length fl)" by (simp only: of_nat_le_iff)
  then have "(of_nat fl :: rat) + 1 \<le> 2 ^ bit_length fl" by simp
  with x_less have x_top: "x < 2 ^ bit_length fl" by linarith
  have upper: "x < 2 ^ (53 + s)"
  proof -
    have "bit_length fl \<le> 53 + s" by (simp add: s_def)
    then have "(2::rat) ^ bit_length fl \<le> 2 ^ (53 + s)" by (rule power_increasing) simp
    with x_top show ?thesis by linarith
  qed
  have lower: "s = 0 \<or> 2 ^ (52 + s) \<le> x"
  proof (cases "s = 0")
    case True
    then show ?thesis by simp
  next
    case False
    then have L: "bit_length fl = Suc (52 + s)" by (simp add: s_def)
    then have "fl \<noteq> 0" by (metis bit_length_0 nat.distinct(1))
    then have "2 ^ bit_length fl \<le> 2 * fl" by (rule bit_length_ge)
    then have "2 * 2 ^ (52 + s) \<le> 2 * fl" by (simp only: L power_Suc)
    then have "2 ^ (52 + s) \<le> fl" by linarith
    then have "(of_nat (2 ^ (52 + s)) :: rat) \<le> of_nat fl" by (simp only: of_nat_le_iff)
    then have "(2::rat) ^ (52 + s) \<le> of_nat fl" by simp
    with fl_le have "(2::rat) ^ (52 + s) \<le> x" by linarith
    then show ?thesis by (rule disjI2)
  qed
  have pos: "(0::rat) < 2 ^ s" by simp
  have y_eq: "y = of_nat n / of_nat (d * 2 ^ s)" by (simp add: y_def x_def)
  have "0 < d * 2 ^ s" using d by simp
  then have err: "\<bar>of_nat m - y\<bar> \<le> 1 / 2"
    and tie: "\<bar>of_nat m - y\<bar> = 1 / 2 \<longrightarrow> even m"
    unfolding y_eq m_def by (rule rne_div_err, blast intro: rne_div_tie)
  have "y < 2 ^ 53"
  proof -
    have "x < 2 ^ 53 * 2 ^ s" using upper by (simp only: power_add)
    then show ?thesis unfolding y_def using pos by (simp add: field_simps)
  qed
  then have "y \<le> of_nat (2 ^ 53)" by simp
  with err have m_le: "m \<le> 2 ^ 53" by (rule nearest_upper)
  have m_ge: "s = 0 \<or> 2 ^ 52 \<le> m"
  proof (cases "s = 0")
    case True
    then show ?thesis by simp
  next
    case False
    with lower have "2 ^ 52 * 2 ^ s \<le> x" by (simp only: power_add) simp
    then have "2 ^ 52 \<le> y" unfolding y_def using pos by (simp add: field_simps)
    then have "of_nat (2 ^ 52) \<le> y" by simp
    with err have "2 ^ 52 \<le> m" by (rule nearest_lower)
    then show ?thesis by simp
  qed
  have "round_mag n d = min (s * 2 ^ 52 + m) inf_bits"
    by (simp add: round_mag_def Let_def s_def m_def fl_def)
  then show ?thesis
    using err tie m_le m_ge lower upper unfolding y_def x_def by (rule that)
qed

lemma div_mult_add: "f < (b::nat) \<Longrightarrow> (e * b + f) div b = e"
  by simp

lemma mod_mult_add: "f < (b::nat) \<Longrightarrow> (e * b + f) mod b = f"
  by simp

lemma units_of_bits_compose:
  assumes "m \<le> 2 ^ 53" "s = 0 \<or> 2 ^ 52 \<le> m"
  shows "units_of_bits (s * 2 ^ 52 + m) = m * 2 ^ s"
proof -
  consider "m < 2 ^ 52" | "2 ^ 52 \<le> m" "m < 2 ^ 53" | "m = 2 ^ 53"
    using assms(1) by linarith
  then show ?thesis
  proof cases
    case 1
    with assms(2) have "s = 0" by simp
    with 1 show ?thesis by (simp add: units_of_bits_def)
  next
    case 2
    define f where "f = m - 2 ^ 52"
    from 2 have f: "f < 2 ^ 52" and m: "m = 2 ^ 52 + f" by (simp_all add: f_def)
    have "s * 2 ^ 52 + m = Suc s * 2 ^ 52 + f" by (simp add: m)
    moreover from f have "(Suc s * 2 ^ 52 + f) div 2 ^ 52 = Suc s" by (rule div_mult_add)
    moreover from f have "(Suc s * 2 ^ 52 + f) mod 2 ^ 52 = f" by (rule mod_mult_add)
    ultimately show ?thesis by (simp add: units_of_bits_def m)
  next
    case 3
    have "s * 2 ^ 52 + m = Suc (Suc s) * 2 ^ 52" by (simp add: 3)
    moreover have "(Suc (Suc s) * 2 ^ 52) div 2 ^ 52 = Suc (Suc s)" by simp
    moreover have "(Suc (Suc s) * 2 ^ 52) mod 2 ^ 52 = (0::nat)" by simp
    ultimately show ?thesis by (simp add: units_of_bits_def 3)
  qed
qed

lemma units_of_bits_grid:
  "(\<exists>j. units_of_bits k = j * 2 ^ s) \<or> units_of_bits k < 2 ^ (52 + s)"
proof (cases "k div 2 ^ 52 = 0")
  case True
  have "k mod 2 ^ 52 < (2::nat) ^ 52" by simp
  also have "(2::nat) ^ 52 \<le> 2 ^ (52 + s)" by (rule power_increasing) simp_all
  finally show ?thesis using True by (simp add: units_of_bits_def)
next
  case False
  define e where "e = k div 2 ^ 52 - 1"
  define sig where "sig = 2 ^ 52 + k mod 2 ^ 52"
  have u: "units_of_bits k = sig * 2 ^ e"
    using False by (simp add: units_of_bits_def e_def sig_def)
  have sig: "sig < 2 ^ 53" by (simp add: sig_def)
  show ?thesis
  proof (cases "s \<le> e")
    case True
    then have "(2::nat) ^ e = 2 ^ (e - s) * 2 ^ s" by (simp add: power_add [symmetric])
    then have "units_of_bits k = (sig * 2 ^ (e - s)) * 2 ^ s" by (simp add: u)
    then show ?thesis by blast
  next
    case False
    then have "Suc e \<le> s" by simp
    then have "(2::nat) ^ Suc e \<le> 2 ^ s" by (rule power_increasing) simp
    then have "(2::nat) ^ 52 * 2 ^ Suc e \<le> 2 ^ 52 * 2 ^ s" by (rule mult_left_mono) simp
    then have le: "(2::nat) ^ 53 * 2 ^ e \<le> 2 ^ (52 + s)" by (simp add: power_add)
    have "sig * 2 ^ e < 2 ^ 53 * 2 ^ e" using sig by simp
    from this le have "units_of_bits k < 2 ^ (52 + s)" unfolding u by (rule less_le_trans)
    then show ?thesis by (rule disjI2)
  qed
qed

lemma abs_scale:
  fixes a x c :: rat
  assumes "0 < c"
  shows "\<bar>a * c - x\<bar> = c * \<bar>a - x / c\<bar>"
proof -
  have "c * \<bar>a - x / c\<bar> = \<bar>c * (a - x / c)\<bar>" using assms by (simp add: abs_mult)
  also have "c * (a - x / c) = a * c - x" using assms by (simp add: field_simps)
  finally show ?thesis by simp
qed

lemma round_mag_best:
  fixes n d k :: nat
  assumes d: "0 < d" and fin: "round_mag n d < inf_bits"
  defines "x \<equiv> of_nat n / of_nat d :: rat"
  defines "u \<equiv> of_nat (units_of_bits (round_mag n d)) :: rat"
  defines "v \<equiv> of_nat (units_of_bits k) :: rat"
  shows "\<bar>u - x\<bar> \<le> \<bar>v - x\<bar>" and "v \<noteq> u \<Longrightarrow> \<bar>v - x\<bar> = \<bar>u - x\<bar> \<Longrightarrow> even (round_mag n d)"
proof -
  from d obtain s m where
    r: "round_mag n d = min (s * 2 ^ 52 + m) inf_bits"
    and err: "\<bar>of_nat m - x / 2 ^ s\<bar> \<le> 1 / 2"
    and tie: "\<bar>of_nat m - x / 2 ^ s\<bar> = 1 / 2 \<longrightarrow> even m"
    and m_le: "m \<le> 2 ^ 53"
    and m_ge: "s = 0 \<or> 2 ^ 52 \<le> m"
    and lower: "s = 0 \<or> (2 :: rat) ^ (52 + s) \<le> x"
    and upper: "x < 2 ^ (53 + s)"
    unfolding x_def by (rule round_mag_decomp)
  define c :: rat where "c = 2 ^ s"
  define y where "y = x / c"
  have c: "0 < c" by (simp add: c_def)
  from fin r have r0: "round_mag n d = s * 2 ^ 52 + m" by simp
  have "units_of_bits (round_mag n d) = m * 2 ^ s"
    unfolding r0 using m_le m_ge by (rule units_of_bits_compose)
  then have "u = of_nat m * c" by (simp add: u_def c_def)
  then have u: "\<bar>u - x\<bar> = c * \<bar>of_nat m - y\<bar>"
    unfolding y_def using c by (simp only: abs_scale)
  have err': "\<bar>of_nat m - y\<bar> \<le> 1 / 2" using err by (simp add: y_def c_def)
  have even_r: "even m \<Longrightarrow> even (round_mag n d)" by (simp add: r0)
  consider j where "units_of_bits k = j * 2 ^ s"
    | "s \<noteq> 0" "units_of_bits k < 2 ^ (52 + s)"
  proof -
    have "(\<exists>j. units_of_bits k = j * 2 ^ s) \<or> units_of_bits k < 2 ^ (52 + s)"
      by (rule units_of_bits_grid)
    moreover have "s = 0 \<Longrightarrow> units_of_bits k = units_of_bits k * 2 ^ s" by simp
    ultimately show ?thesis using that by blast
  qed
  then have "\<bar>u - x\<bar> \<le> \<bar>v - x\<bar> \<and> (v \<noteq> u \<longrightarrow> \<bar>v - x\<bar> = \<bar>u - x\<bar> \<longrightarrow> even (round_mag n d))"
  proof cases
    case 1
    then have vj: "v = of_nat j * c" by (simp add: v_def c_def)
    then have v: "\<bar>v - x\<bar> = c * \<bar>of_nat j - y\<bar>"
      unfolding y_def using c by (simp only: abs_scale)
    have "\<bar>of_nat m - y\<bar> \<le> \<bar>of_nat j - y\<bar>" using err' by (rule nearest_int)
    then have le: "\<bar>u - x\<bar> \<le> \<bar>v - x\<bar>" unfolding u v using c by simp
    have "even (round_mag n d)" if "v \<noteq> u" "\<bar>v - x\<bar> = \<bar>u - x\<bar>"
    proof -
      from that(1) have "j \<noteq> m" using \<open>u = of_nat m * c\<close> vj by auto
      moreover from that(2) have "\<bar>of_nat j - y\<bar> = \<bar>of_nat m - y\<bar>"
        unfolding u v using c by simp
      ultimately have "\<bar>of_nat m - y\<bar> = 1 / 2" using err' by (intro tie_int)
      then have "even m" using tie by (simp add: y_def c_def)
      then show ?thesis by (rule even_r)
    qed
    with le show ?thesis by blast
  next
    case 2
    with lower have x_ge: "(2 :: rat) ^ (52 + s) \<le> x" by simp
    have "(of_nat (units_of_bits k) :: rat) < of_nat (2 ^ (52 + s))"
      using 2(2) by (simp only: of_nat_less_iff)
    then have v_less: "v < 2 ^ (52 + s)" by (simp add: v_def)
    have "(2 :: rat) ^ (52 + s) = of_nat (2 ^ 52) * c" by (simp add: c_def power_add)
    then have "\<bar>(2 :: rat) ^ (52 + s) - x\<bar> = c * \<bar>of_nat (2 ^ 52) - y\<bar>"
      unfolding y_def using c by (simp only: abs_scale)
    moreover have "\<bar>of_nat m - y\<bar> \<le> \<bar>of_nat (2 ^ 52) - y\<bar>" using err' by (rule nearest_int)
    ultimately have "\<bar>u - x\<bar> \<le> \<bar>(2 :: rat) ^ (52 + s) - x\<bar>" unfolding u using c by simp
    with x_ge v_less have "\<bar>u - x\<bar> < \<bar>v - x\<bar>" by linarith
    then show ?thesis by simp
  qed
  then show "\<bar>u - x\<bar> \<le> \<bar>v - x\<bar>"
    and "v \<noteq> u \<Longrightarrow> \<bar>v - x\<bar> = \<bar>u - x\<bar> \<Longrightarrow> even (round_mag n d)"
    by blast+
qed

section \<open>Overflow\<close>

lemma exponent_field_ge:
  fixes b s m :: nat
  assumes "0 < b" "2047 * b \<le> s * b + m" "m \<le> 2 * b"
  shows "2045 \<le> s"
proof (rule ccontr)
  assume "\<not> 2045 \<le> s"
  then have "s \<le> 2044" by simp
  then have "s * b \<le> 2044 * b" by (rule mult_le_mono1)
  with assms show False by linarith
qed

lemma round_mag_overflow:
  fixes n d :: nat
  assumes d: "0 < d"
  shows "round_mag n d = inf_bits \<longleftrightarrow> overflow_threshold * 2 ^ 1074 \<le> (of_nat n / of_nat d :: rat)"
proof -
  define x :: rat where "x = of_nat n / of_nat d"
  define T :: rat where "T = overflow_threshold * 2 ^ 1074"
  define b :: nat where "b = 2 ^ 52"
  define c :: rat where "c = 2 ^ 2045"
  from d obtain s m where
    r: "round_mag n d = min (s * 2 ^ 52 + m) inf_bits"
    and err: "\<bar>of_nat m - x / 2 ^ s\<bar> \<le> 1 / 2"
    and tie: "\<bar>of_nat m - x / 2 ^ s\<bar> = 1 / 2 \<longrightarrow> even m"
    and m_le: "m \<le> 2 ^ 53"
    and m_ge: "s = 0 \<or> 2 ^ 52 \<le> m"
    and lower: "s = 0 \<or> (2 :: rat) ^ (52 + s) \<le> x"
    and upper: "x < 2 ^ (53 + s)"
    unfolding x_def by (rule round_mag_decomp)
  have b: "0 < b" by (simp add: b_def)
  have c: "0 < c" by (simp add: c_def)
  have m_le': "m \<le> 2 * b" using m_le by (simp add: b_def)
  have m_ge': "s = 0 \<or> b \<le> m" using m_ge by (simp add: b_def)
  have inf: "inf_bits = 2047 * b" by (simp add: inf_bits_def b_def)
  have T_c: "T = (2 ^ 53 - 1 / 2) * c" by (simp add: T_def c_def overflow_threshold_def)
  have T_top: "T \<le> 2 ^ 2098" by (simp add: T_def overflow_threshold_def)
  have T_bot: "2 ^ 2097 \<le> T" by (simp add: T_def overflow_threshold_def)
  have two_b: "(of_nat (2 * b) :: rat) = 2 ^ 53" by (simp add: b_def)
  have "round_mag n d = inf_bits \<longleftrightarrow> 2047 * b \<le> s * b + m"
    unfolding r inf b_def [symmetric] by (auto simp: min_def)
  also have "\<dots> \<longleftrightarrow> T \<le> x"
  proof
    assume ge: "2047 * b \<le> s * b + m"
    with b have s_ge: "2045 \<le> s" using m_le' by (rule exponent_field_ge)
    show "T \<le> x"
    proof (cases "s = 2045")
      case True
      with ge have "2 * b \<le> m" by simp
      then have "(of_nat (2 * b) :: rat) \<le> of_nat m" by (simp only: of_nat_le_iff)
      then have "2 ^ 53 \<le> (of_nat m :: rat)" by (simp only: two_b)
      moreover from err True have "\<bar>of_nat m - x / c\<bar> \<le> 1 / 2" by (simp add: c_def)
      ultimately have "2 ^ 53 - 1 / 2 \<le> x / c" by linarith
      then have "(2 ^ 53 - 1 / 2) * c \<le> x" using c by (simp only: pos_le_divide_eq)
      then show ?thesis by (simp only: T_c)
    next
      case False
      with s_ge have "2098 \<le> 52 + s" by simp
      then have "(2::rat) ^ 2098 \<le> 2 ^ (52 + s)" by (rule power_increasing) simp
      moreover from False s_ge lower have "(2 :: rat) ^ (52 + s) \<le> x" by auto
      ultimately show ?thesis using T_top by linarith
    qed
  next
    assume "T \<le> x"
    with T_bot have "2 ^ 2097 \<le> x" by (rule order_trans)
    then have lt: "(2::rat) ^ 2097 < 2 ^ (53 + s)" using upper by (rule le_less_trans)
    have "2097 < 53 + s" by (rule power_less_imp_less_exp [OF _ lt]) simp
    then have s_ge: "2045 \<le> s" by simp
    show "2047 * b \<le> s * b + m"
    proof (cases "s = 2045")
      case True
      from \<open>T \<le> x\<close> have "(2 ^ 53 - 1 / 2) * c \<le> x" by (simp only: T_c)
      then have y_ge: "2 ^ 53 - 1 / 2 \<le> x / c" using c by (simp only: pos_le_divide_eq)
      from err True have err': "\<bar>of_nat m - x / c\<bar> \<le> 1 / 2" by (simp add: c_def)
      have "(of_nat (2 * b - 1) :: rat) = 2 ^ 53 - 1" by (simp add: b_def)
      with y_ge have "of_nat (2 * b - 1) \<le> x / c" by linarith
      with err' have m1: "2 * b - 1 \<le> m" by (rule nearest_lower)
      have "m \<noteq> 2 * b - 1"
      proof
        assume eq: "m = 2 * b - 1"
        then have "(of_nat m :: rat) = 2 ^ 53 - 1" by (simp add: b_def)
        with y_ge err' have "\<bar>of_nat m - x / c\<bar> = 1 / 2" by linarith
        with tie True have "even m" by (simp add: c_def)
        moreover have "odd m" unfolding eq using b by (simp add: b_def)
        ultimately show False by simp
      qed
      with m1 have "2 * b \<le> m" by linarith
      with True show ?thesis by simp
    next
      case False
      with s_ge have "2046 \<le> s" by simp
      then have "2046 * b \<le> s * b" by (rule mult_le_mono1)
      moreover from False s_ge m_ge' have "b \<le> m" by auto
      ultimately show ?thesis by linarith
    qed
  qed
  finally show ?thesis unfolding T_def x_def .
qed

section \<open>From magnitudes to signed values\<close>

lemma signed_units_rat:
  "(of_int (signed_units c) :: rat) = (if sign_bit c then - of_nat (units c) else of_nat (units c))"
  by (simp add: signed_units_def)

lemma units_of_bits_0: "units_of_bits 0 = 0"
  by (simp add: units_of_bits_def)

lemma even_fraction: "even (magnitude r) \<Longrightarrow> even (fraction r)"
  by (simp add: fraction_def dvd_mod_iff)

lemma pack_round_units:
  fixes n d :: nat and sg :: bool and c :: double
  assumes d: "0 < d" and fin: "round_mag n d < inf_bits"
  defines "R \<equiv> pack sg (round_mag n d)"
  defines "xs \<equiv> (if sg then - (of_nat n / of_nat d) else of_nat n / of_nat d) :: rat"
  shows "\<bar>of_int (signed_units R) - xs\<bar> \<le> \<bar>of_int (signed_units c) - xs\<bar>"
    and "of_int (signed_units c) \<noteq> (of_int (signed_units R) :: rat) \<Longrightarrow>
         \<bar>of_int (signed_units c) - xs\<bar> = \<bar>of_int (signed_units R) - xs\<bar> \<Longrightarrow> even (fraction R)"
proof -
  define x :: rat where "x = of_nat n / of_nat d"
  define u :: rat where "u = of_nat (units_of_bits (round_mag n d))"
  define v :: rat where "v = of_nat (units c)"
  have x: "0 \<le> x" by (simp add: x_def)
  have v: "0 \<le> v" by (simp add: v_def)
  have mag: "magnitude R = round_mag n d" and sgn: "sign_bit R = sg"
    by (simp_all add: R_def magnitude_pack_round sign_bit_pack_round)
  have suR: "of_int (signed_units R) = (if sg then - u else u)"
    by (simp add: signed_units_rat sgn units_def mag u_def)
  have suc: "of_int (signed_units c) = (if sign_bit c then - v else v)"
    by (simp add: signed_units_rat v_def)
  have xs: "xs = (if sg then - x else x)" by (simp add: xs_def x_def)
  have best: "\<bar>u - x\<bar> \<le> \<bar>v - x\<bar>"
    unfolding u_def v_def x_def units_def using d fin by (rule round_mag_best)
  have best_tie: "v \<noteq> u \<Longrightarrow> \<bar>v - x\<bar> = \<bar>u - x\<bar> \<Longrightarrow> even (round_mag n d)"
    unfolding u_def v_def x_def units_def using d fin by (rule round_mag_best)
  have "\<bar>u - x\<bar> \<le> \<bar>of_nat (units_of_bits 0) - x\<bar>"
    unfolding u_def x_def using d fin by (rule round_mag_best)
  then have zero: "\<bar>u - x\<bar> \<le> x" using x by (simp add: units_of_bits_0)
  have zero_tie: "0 \<noteq> u \<Longrightarrow> x = \<bar>u - x\<bar> \<Longrightarrow> even (round_mag n d)"
    using round_mag_best(2) [OF d fin, of 0] x by (simp add: units_of_bits_0 u_def x_def)
  have even_R: "even (round_mag n d) \<Longrightarrow> even (fraction R)"
    using even_fraction [of R] by (simp add: mag)
  have same: "\<bar>(if sg then - u else u) - xs\<bar> = \<bar>u - x\<bar>" by (auto simp: xs abs_minus_commute)
  show "\<bar>of_int (signed_units R) - xs\<bar> \<le> \<bar>of_int (signed_units c) - xs\<bar>"
  proof (cases "sign_bit c = sg")
    case True
    then have "\<bar>of_int (signed_units c) - xs\<bar> = \<bar>v - x\<bar>" by (auto simp: suc xs abs_minus_commute)
    with best show ?thesis by (simp add: suR same)
  next
    case False
    then have "\<bar>of_int (signed_units c) - xs\<bar> = v + x" using v x by (auto simp: suc xs)
    with zero v show ?thesis by (simp add: suR same)
  qed
  show "even (fraction R)"
    if ne: "of_int (signed_units c) \<noteq> (of_int (signed_units R) :: rat)"
    and eq: "\<bar>of_int (signed_units c) - xs\<bar> = \<bar>of_int (signed_units R) - xs\<bar>"
  proof (cases "sign_bit c = sg")
    case True
    then have "\<bar>of_int (signed_units c) - xs\<bar> = \<bar>v - x\<bar>" by (auto simp: suc xs abs_minus_commute)
    with eq have "\<bar>v - x\<bar> = \<bar>u - x\<bar>" by (simp add: suR same)
    moreover from ne True have "v \<noteq> u" by (auto simp: suc suR)
    ultimately show ?thesis by (intro even_R best_tie)
  next
    case False
    then have "\<bar>of_int (signed_units c) - xs\<bar> = v + x" using v x by (auto simp: suc xs)
    with eq have vx: "v + x = \<bar>u - x\<bar>" by (simp add: suR same)
    with zero v have v0: "v = 0" and "x = \<bar>u - x\<bar>" by linarith+
    moreover have "0 \<noteq> u"
    proof
      assume "0 = u"
      then have "(of_int (signed_units R) :: rat) = 0" by (simp add: suR)
      moreover have "(of_int (signed_units c) :: rat) = 0" by (simp add: suc v0)
      ultimately show False using ne by simp
    qed
    ultimately show ?thesis by (intro even_R zero_tie)
  qed
qed

lemma scaled_abs:
  fixes a b S :: rat
  assumes "0 < S"
  shows "\<bar>a / S - b / S\<bar> = \<bar>a - b\<bar> / S"
proof -
  have "a / S - b / S = (a - b) / S" by (simp add: diff_divide_distrib)
  then show ?thesis using assms by (simp add: abs_divide)
qed

lemma value_of_dist:
  "\<bar>value_of w - xs / 2 ^ 1074\<bar> = \<bar>of_int (signed_units w) - xs\<bar> / 2 ^ 1074"
  unfolding value_of_def by (rule scaled_abs) simp

lemma value_of_eq_iff:
  "value_of c = value_of r \<longleftrightarrow> (of_int (signed_units c) :: rat) = of_int (signed_units r)"
  unfolding value_of_def by simp

lemma overflow_threshold_pos: "0 < overflow_threshold"
  by (simp add: overflow_threshold_def)

lemma pack_round_correct:
  fixes n d :: nat and sg :: bool
  assumes d: "0 < d"
  defines "xs \<equiv> (if sg then - (of_nat n / of_nat d) else of_nat n / of_nat d) :: rat"
  shows "correctly_rounded (xs / 2 ^ 1074) (pack sg (round_mag n d))"
proof -
  define x :: rat where "x = of_nat n / of_nat d"
  define R where "R = pack sg (round_mag n d)"
  define S :: rat where "S = 2 ^ 1074"
  have S: "0 < S" by (simp add: S_def)
  have x: "0 \<le> x" by (simp add: x_def)
  have xs: "xs = (if sg then - x else x)" by (simp add: xs_def x_def)
  have abs_xs: "\<bar>xs / S\<bar> = x / S" using S x by (simp add: xs abs_divide)
  have mag: "magnitude R = round_mag n d" and sgn: "sign_bit R = sg"
    by (simp_all add: R_def magnitude_pack_round sign_bit_pack_round)
  have neg: "xs / S < 0 \<longleftrightarrow> sg" if "0 < x"
    using that S by (simp add: xs divide_less_0_iff zero_less_divide_iff)
  have ov: "round_mag n d = inf_bits \<longleftrightarrow> overflow_threshold \<le> \<bar>xs / S\<bar>"
  proof -
    have "round_mag n d = inf_bits \<longleftrightarrow> overflow_threshold * S \<le> x"
      unfolding S_def x_def using d by (rule round_mag_overflow)
    also have "\<dots> \<longleftrightarrow> overflow_threshold \<le> x / S" using S by (simp only: pos_le_divide_eq)
    finally show ?thesis by (simp only: abs_xs)
  qed
  have "correctly_rounded (xs / S) R"
  proof (cases "round_mag n d = inf_bits")
    case True
    with ov have big: "overflow_threshold \<le> \<bar>xs / S\<bar>" by simp
    then have "overflow_threshold \<le> x / S" by (simp only: abs_xs)
    with overflow_threshold_pos have "0 < x / S" by linarith
    then have "0 < x" using S by (simp add: zero_less_divide_iff)
    then have "sign_bit R = (xs / S < 0)" by (simp add: neg sgn)
    moreover have "is_inf R" using True by (simp add: is_inf_def mag)
    ultimately show ?thesis using big by (simp add: correctly_rounded_def)
  next
    case False
    with ov have small: "\<not> overflow_threshold \<le> \<bar>xs / S\<bar>" by simp
    from False have fin: "round_mag n d < inf_bits" using round_mag_le [of n d] by simp
    then have finR: "is_finite R" by (simp add: is_finite_def mag)
    have near: "\<bar>value_of R - xs / S\<bar> \<le> \<bar>value_of c - xs / S\<bar>" for c
    proof -
      have "\<bar>of_int (signed_units R) - xs\<bar> \<le> \<bar>of_int (signed_units c) - xs\<bar>"
        unfolding R_def xs_def using d fin by (rule pack_round_units)
      then have "\<bar>of_int (signed_units R) - xs\<bar> / S \<le> \<bar>of_int (signed_units c) - xs\<bar> / S"
        using S by (simp add: divide_right_mono)
      then show ?thesis unfolding S_def by (simp only: value_of_dist)
    qed
    have tie: "even (fraction R)"
      if "value_of c \<noteq> value_of R" "\<bar>value_of c - xs / S\<bar> = \<bar>value_of R - xs / S\<bar>" for c
    proof -
      from that(1) have ne: "(of_int (signed_units c) :: rat) \<noteq> of_int (signed_units R)"
        by (simp only: value_of_eq_iff not_False_eq_True)
      from that(2) have "\<bar>of_int (signed_units c) - xs\<bar> / S = \<bar>of_int (signed_units R) - xs\<bar> / S"
        unfolding S_def by (simp only: value_of_dist)
      then have "\<bar>of_int (signed_units c) - xs\<bar> = \<bar>of_int (signed_units R) - xs\<bar>"
        using S by simp
      with ne show ?thesis
        unfolding R_def xs_def using d fin by (intro pack_round_units(2))
    qed
    have "sign_bit R = (xs / S < 0)" if "xs / S \<noteq> 0"
    proof -
      have "xs / S = 0" if "x = 0" using that by (simp add: xs)
      with \<open>xs / S \<noteq> 0\<close> have "x \<noteq> 0" by blast
      with x have "0 < x" by simp
      then show ?thesis by (simp add: neg sgn)
    qed
    with small finR near tie show ?thesis unfolding correctly_rounded_def by auto
  qed
  then show ?thesis by (simp only: R_def S_def)
qed

lemma value_of_zero: "value_of (zero sg) = 0"
  by (simp add: value_of_def signed_units_def units_def magnitude_zero units_of_bits_0)

lemma is_finite_zero: "is_finite (zero sg)"
  by (simp add: is_finite_def magnitude_zero inf_bits_def)

lemma correctly_rounded_zero: "correctly_rounded 0 (zero sg)"
  using overflow_threshold_pos
  by (simp add: correctly_rounded_def value_of_zero is_finite_zero)

lemma round_int_correct:
  "correctly_rounded (of_int s / 2 ^ 1074) (pack (s < 0) (round_mag (nat \<bar>s\<bar>) 1))"
proof -
  have "(if s < 0 then - (of_nat (nat \<bar>s\<bar>) / of_nat 1) else of_nat (nat \<bar>s\<bar>) / of_nat 1)
          = (of_int s :: rat)"
    by simp
  then show ?thesis
    using pack_round_correct [of 1 "s < 0" "nat \<bar>s\<bar>"] by (simp only: zero_less_one)
qed

lemma fsub_finite:
  "is_finite a \<Longrightarrow> is_finite b \<Longrightarrow>
     fsub a b =
       (let s = signed_units a - signed_units b
        in if s = 0 then zero (sign_bit a \<and> \<not> sign_bit b)
           else pack (s < 0) (round_mag (nat \<bar>s\<bar>) 1))"
  by (simp add: fsub_def is_finite_def is_nan_def is_inf_def)

lemma fdiv_finite:
  "is_finite a \<Longrightarrow> is_finite b \<Longrightarrow> \<not> is_zero b \<Longrightarrow>
     fdiv a b = pack (sign_bit a \<noteq> sign_bit b) (round_mag (units a * 2 ^ 1074) (units b))"
  unfolding fdiv_def by (simp add: is_finite_def is_nan_def is_inf_def del: power_numeral)

lemma signed_product:
  fixes u v S :: rat
  shows "(if p \<noteq> q then - (u * v / S) else u * v / S) / S
           = ((if p then - u else u) / S) * ((if q then - v else v) / S)"
  by simp

lemma signed_quotient:
  fixes u v S :: rat
  assumes "S \<noteq> 0"
  shows "(if p \<noteq> q then - (u * S / v) else u * S / v) / S
           = ((if p then - u else u) / S) / ((if q then - v else v) / S)"
  using assms by simp


section \<open>The zero-divisor guard\<close>

lemma feq_plus_zero: "feq b plus_zero = is_zero b"
  by (auto simp: feq_def is_zero_def is_nan_def magnitude_plus_zero inf_bits_def)

lemma divide_calc_zero: "is_zero b \<Longrightarrow> divide_calc a b = plus_zero"
  by (simp add: divide_calc_def double_of_int_0 feq_plus_zero)

lemma divide_calc_nonzero: "\<not> is_zero b \<Longrightarrow> divide_calc a b = fdiv a b"
  by (simp add: divide_calc_def double_of_int_0 feq_plus_zero)

section \<open>Exact results and concrete scenarios\<close>

lemma signed_units_nonzero:
  assumes "\<not> is_zero r"
  shows "signed_units r \<noteq> 0" "signed_units r < 0 \<longleftrightarrow> sign_bit r" "nat \<bar>signed_units r\<bar> = units r"
proof -
  from assms have "units r \<noteq> 0" by (simp add: units_eq_0)
  then show "signed_units r \<noteq> 0" "signed_units r < 0 \<longleftrightarrow> sign_bit r"
    "nat \<bar>signed_units r\<bar> = units r"
    by (auto simp: signed_units_def)
qed

lemma pack_round_signed_units:
  assumes "is_finite r" "\<not> is_zero r"
  shows "pack (signed_units r < 0) (round_mag (nat \<bar>signed_units r\<bar>) 1) = r"
  by (simp only: signed_units_nonzero [OF assms(2)] round_mag_units [OF assms(1)]
      pack_sign_magnitude)

lemma fadd_exact:
  assumes "is_finite a" "is_finite b" "is_finite r" "\<not> is_zero r"
    and "signed_units a + signed_units b = signed_units r"
  shows "fadd a b = r"
proof -
  have "fadd a b = pack (signed_units r < 0) (round_mag (nat \<bar>signed_units r\<bar>) 1)"
    unfolding fadd_finite [OF assms(1,2)] assms(5) Let_def
    using signed_units_nonzero(1) [OF assms(4)] by (simp only: if_False)
  also have "\<dots> = r" using assms(3,4) by (rule pack_round_signed_units)
  finally show ?thesis .
qed

lemma fsub_exact:
  assumes "is_finite a" "is_finite b" "is_finite r" "\<not> is_zero r"
    and "signed_units a - signed_units b = signed_units r"
  shows "fsub a b = r"
proof -
  have "fsub a b = pack (signed_units r < 0) (round_mag (nat \<bar>signed_units r\<bar>) 1)"
    unfolding fsub_finite [OF assms(1,2)] assms(5) Let_def
    using signed_units_nonzero(1) [OF assms(4)] by (simp only: if_False)
  also have "\<dots> = r" using assms(3,4) by (rule pack_round_signed_units)
  finally show ?thesis .
qed

lemma fmul_exact:
  assumes "is_finite a" "is_finite b" "is_finite r"
    and "units a * units b = units r * 2 ^ 1074"
    and "sign_bit r = (sign_bit a \<noteq> sign_bit b)"
  shows "fmul a b = r"
proof -
  have "round_mag (units r * 2 ^ 1074) (2 ^ 1074) = magnitude r"
    using assms(3) by (rule round_mag_cancel) simp
  then show ?thesis
    by (simp only: fmul_finite [OF assms(1,2)] assms(4) assms(5) [symmetric] pack_sign_magnitude)
qed

lemma fdiv_exact:
  assumes "is_finite a" "is_finite b" "\<not> is_zero b" "is_finite r"
    and "units a * 2 ^ 1074 = units r * units b"
    and "sign_bit r = (sign_bit a \<noteq> sign_bit b)"
  shows "fdiv a b = r"
proof -
  from assms(3) have "0 < units b" by (simp add: units_eq_0 [symmetric])
  with assms(4) have "round_mag (units r * units b) (units b) = magnitude r"
    by (rule round_mag_cancel)
  then show ?thesis
    by (simp only: fdiv_finite [OF assms(1-3)] assms(5) assms(6) [symmetric] pack_sign_magnitude)
qed

lemmas literal_defs = one_def two_def two_and_half_def three_def four_def five_def seven_def ten_def

lemma literal_magnitudes:
  "magnitude two = 1024 * 2 ^ 52" "magnitude two_and_half = 1024 * 2 ^ 52 + 2 ^ 50"
  "magnitude three = 1024 * 2 ^ 52 + 2 ^ 51" "magnitude four = 1025 * 2 ^ 52"
  "magnitude five = 1025 * 2 ^ 52 + 2 ^ 50" "magnitude ten = 1026 * 2 ^ 52 + 2 ^ 50"
  by (simp_all add: magnitude_def literal_defs)

lemma literal_signs:
  "\<not> sign_bit two" "\<not> sign_bit two_and_half" "\<not> sign_bit three" "\<not> sign_bit four"
  "\<not> sign_bit five" "\<not> sign_bit ten"
  by (simp_all add: sign_bit_def literal_defs)

lemma literal_finite:
  "is_finite two" "is_finite two_and_half" "is_finite three" "is_finite four"
  "is_finite five" "is_finite ten"
  by (simp_all add: is_finite_def literal_magnitudes inf_bits_def)

lemma literal_nonzero:
  "\<not> is_zero two" "\<not> is_zero two_and_half" "\<not> is_zero three" "\<not> is_zero four"
  "\<not> is_zero five" "\<not> is_zero ten"
  by (simp_all add: is_zero_def literal_magnitudes)

lemma literal_units:
  "units two = 2 * 2 ^ 1074" "2 * units two_and_half = 5 * 2 ^ 1074"
  "units three = 3 * 2 ^ 1074" "units four = 4 * 2 ^ 1074"
  "units five = 5 * 2 ^ 1074" "units ten = 10 * 2 ^ 1074"
  by (simp_all add: units_def literal_magnitudes units_of_bits_def)

lemma literal_signed_units:
  "signed_units two = 2 * 2 ^ 1074" "signed_units three = 3 * 2 ^ 1074"
  "signed_units five = 5 * 2 ^ 1074"
  by (simp_all add: signed_units_def literal_signs literal_units)

lemma scenario_add: "add two three = five"
  unfolding add_def
  by (rule fadd_exact) (simp_all add: literal_finite literal_nonzero literal_signed_units)

lemma scenario_substract: "substract five three = two"
  unfolding substract_def
  by (rule fsub_exact) (simp_all add: literal_finite literal_nonzero literal_signed_units)

lemma scenario_multiply: "multiply four two_and_half = ten"
  unfolding multiply_def
proof (rule fmul_exact)
  have "2 * (units four * units two_and_half) = 2 * (units ten * 2 ^ 1074)"
    using literal_units(2) by (simp add: literal_units(4,6))
  then show "units four * units two_and_half = units ten * 2 ^ 1074" by simp
qed (simp_all add: literal_finite literal_signs)

lemma scenario_divide: "divide_calc ten two = five"
proof -
  have "fdiv ten two = five"
    by (rule fdiv_exact) (simp_all add: literal_finite literal_nonzero literal_signs literal_units)
  then show ?thesis by (simp add: divide_calc_nonzero literal_nonzero)
qed

lemma scenario_divide_by_zero: "divide_calc seven plus_zero = plus_zero"
  by (simp add: divide_calc_zero is_zero_plus_zero)

lemma round_mag_eval:
  assumes "0 < d" "2 ^ k * d \<le> n" "n < 2 ^ Suc k * d"
    and "rne_div n (d * 2 ^ (Suc k - 53)) = m"
    and "(Suc k - 53) * 2 ^ 52 + m \<le> inf_bits"
  shows "round_mag n d = (Suc k - 53) * 2 ^ 52 + m"
proof -
  from assms(1,2) have "2 ^ k \<le> n div d" by (simp only: less_eq_div_iff_mult_less_eq)
  moreover from assms(1,3) have "n div d < 2 ^ Suc k" by (simp only: div_less_iff_less_mult)
  ultimately have "bit_length (n div d) = Suc k" by (rule bit_length_eq)
  then show ?thesis
    unfolding round_mag_def Let_def using assms(4,5) by (simp only: min_absorb1)
qed

lemma inexact_magnitudes:
  "magnitude tenth = 0x3FB999999999999A" "magnitude fifth = 0x3FC999999999999A"
  by (simp_all add: magnitude_def tenth_def fifth_def)

lemma inexact_signs: "\<not> sign_bit tenth" "\<not> sign_bit fifth"
  by (simp_all add: sign_bit_def tenth_def fifth_def)

lemma inexact_finite: "is_finite tenth" "is_finite fifth"
  by (simp_all add: is_finite_def inexact_magnitudes inf_bits_def)

lemma inexact_units:
  "units tenth = 0x1999999999999A * 2 ^ 1018" "units fifth = 0x1999999999999A * 2 ^ 1019"
  by (simp_all add: units_def inexact_magnitudes units_of_bits_def)

lemma round_three_tenths:
  "round_mag (3 * 0x1999999999999A * 2 ^ 1018) 1 = 0x3FD3333333333334"
proof -
  have "rne_div (3 * 0x1999999999999A * 2 ^ 1018) (4 * 2 ^ 1018) = rne_div (3 * 0x1999999999999A) 4"
    by (rule rne_div_scale) simp
  also have "\<dots> = 0x13333333333334" by (simp add: rne_div_def)
  finally have "rne_div (3 * 0x1999999999999A * 2 ^ 1018) (1 * 2 ^ (Suc 1072 - 53)) = 0x13333333333334"
    by simp
  then have "round_mag (3 * 0x1999999999999A * 2 ^ 1018) 1
      = (Suc 1072 - 53) * 2 ^ 52 + 0x13333333333334"
    by (rule round_mag_eval [rotated 3]) (simp_all add: inf_bits_def)
  then show ?thesis by simp
qed

lemma scenario_inexact_add: "add tenth fifth = three_tenths_up"
proof -
  have s: "signed_units tenth + signed_units fifth = 3 * 0x1999999999999A * 2 ^ 1018"
    by (simp add: signed_units_def inexact_signs inexact_units)
  have "fadd tenth fifth = pack False (round_mag (3 * 0x1999999999999A * 2 ^ 1018) 1)"
    unfolding fadd_finite [OF inexact_finite] s Let_def by simp
  then show ?thesis
    unfolding add_def round_three_tenths by (simp add: pack_def three_tenths_up_def)
qed

lemma round_third: "round_mag (2 ^ 1074 * 2 ^ 1074) (3 * 2 ^ 1074) = 0x3FD5555555555555"
proof -
  have "rne_div (2 ^ 54 * 2 ^ 1020) (3 * 2 ^ 1020) = rne_div (2 ^ 54) 3"
    by (rule rne_div_scale) simp
  also have "\<dots> = 0x15555555555555" by (simp add: rne_div_def)
  finally have "rne_div (2 ^ 1074) (3 * 2 ^ (Suc 1072 - 53)) = 0x15555555555555"
    by simp
  then have "round_mag (2 ^ 1074) 3 = (Suc 1072 - 53) * 2 ^ 52 + 0x15555555555555"
    by (rule round_mag_eval [rotated 3]) (simp_all add: inf_bits_def)
  moreover have "round_mag (2 ^ 1074 * 2 ^ 1074) (3 * 2 ^ 1074) = round_mag (2 ^ 1074) 3"
    by (rule round_mag_scale) simp
  ultimately show ?thesis by simp
qed

lemma scenario_inexact_divide: "divide_calc one three = third"
proof -
  have "fdiv one three = pack False (round_mag (2 ^ 1074 * 2 ^ 1074) (3 * 2 ^ 1074))"
    unfolding fdiv_finite [OF conjunct2 [OF conjunct2 [OF conjunct2 [OF classes_of_one]]]
      literal_finite(3) literal_nonzero(3)] units_one literal_units(3)
    by (simp add: sign_bit_one literal_signs)
  then show ?thesis
    unfolding round_third by (simp add: divide_calc_nonzero literal_nonzero pack_def third_def)
qed

lemma literal_values:
  "value_of plus_zero = 0" "value_of one = 1" "value_of two = 2" "value_of two_and_half = 5 / 2"
  "value_of seven = 7" "value_of ten = 10"
proof -
  show "value_of plus_zero = 0"
    by (simp add: value_of_def signed_units_def units_def magnitude_plus_zero units_of_bits_0)
  show "value_of one = 1"
    by (simp add: value_of_def signed_units_def sign_bit_one units_one)
  show "value_of two = 2"
    by (simp add: value_of_def signed_units_def literal_signs literal_units)
  have "2 * value_of two_and_half = 5"
    using literal_units(2) by (simp add: value_of_def signed_units_def literal_signs)
  then show "value_of two_and_half = 5 / 2" by simp
  have "units seven = 7 * 2 ^ 1074"
    by (simp add: units_def magnitude_seven units_of_bits_def)
  moreover have "\<not> sign_bit seven" by (simp add: sign_bit_def seven_def)
  ultimately show "value_of seven = 7" by (simp add: value_of_def signed_units_def)
  show "value_of ten = 10"
    by (simp add: value_of_def signed_units_def literal_signs literal_units)
qed

section \<open>The sentinel of divide\<close>

text \<open>
  C1: for every finite double \<open>a\<close>, \<open>divide(a, 0.0)\<close> returns the sentinel \<open>0.0\<close>,
  which is neither an infinity nor a NaN.
\<close>

theorem divide_finite_by_zero:
  "is_finite a \<Longrightarrow>
     divide_calc a plus_zero = plus_zero \<and>
     \<not> is_inf (divide_calc a plus_zero) \<and> \<not> is_nan (divide_calc a plus_zero)"
  by (simp add: divide_calc_zero is_zero_plus_zero classes_of_plus_zero)

theorem divide_finite_by_zero_witness:
  "is_finite seven \<and> divide_calc seven plus_zero = plus_zero \<and>
     \<not> is_inf (divide_calc seven plus_zero) \<and> \<not> is_nan (divide_calc seven plus_zero)"
  using divide_finite_by_zero [OF is_finite_seven] is_finite_seven by blast

text \<open>
  C3: for every double \<open>a\<close>, NaN and the infinities included, \<open>divide(a, 0.0)\<close> returns
  \<open>0.0\<close>: the sentinel wins over the propagation of a non-finite dividend, and the
  result compares equal to \<open>0.0\<close> also when \<open>a\<close> is a NaN.
\<close>

theorem divide_any_by_zero:
  "divide_calc a plus_zero = plus_zero \<and> feq (divide_calc a plus_zero) plus_zero"
  by (simp add: divide_calc_zero is_zero_plus_zero feq_plus_zero)

theorem divide_any_by_zero_witness:
  "is_nan default_nan \<and> divide_calc default_nan plus_zero = plus_zero \<and>
     feq (divide_calc default_nan plus_zero) plus_zero \<and>
     divide_calc (infinity False) plus_zero = plus_zero \<and>
     divide_calc (infinity True) plus_zero = plus_zero"
  using divide_any_by_zero [of default_nan] divide_any_by_zero [of "infinity False"]
    divide_any_by_zero [of "infinity True"] is_nan_default_nan
  by blast

text \<open>
  C10: negative zero compares equal to the constant \<open>0\<close> of the guard, so for every
  double \<open>a\<close>, \<open>divide(a, -0.0)\<close> returns (positive) \<open>0.0\<close> and no signed infinity or NaN.
\<close>

theorem divide_by_minus_zero:
  "feq minus_zero (double_of_int 0) \<and> divide_calc a minus_zero = plus_zero"
  by (simp add: divide_calc_zero is_zero_minus_zero feq_plus_zero double_of_int_0)

theorem divide_by_minus_zero_witness:
  "sign_bit minus_zero \<and> feq minus_zero (double_of_int 0) \<and>
     divide_calc one minus_zero = plus_zero"
proof -
  have "sign_bit minus_zero"
    by (simp add: sign_bit_def minus_zero_def)
  with divide_by_minus_zero [of one] show ?thesis by blast
qed

text \<open>
  C9: none of the four operations can fail.  Each is a total function from two doubles
  to a double, and \<open>divide\<close> never applies the division operator to a divisor that
  compares equal to zero: over the checked operator it still always delivers a result,
  the one of \<open>divide\<close>.
\<close>

theorem operations_cannot_fail:
  "(\<exists>r. add a b = r) \<and> (\<exists>r. substract a b = r) \<and> (\<exists>r. multiply a b = r) \<and>
     divide_checked a b = Inr (divide_calc a b)"
  by (simp add: divide_checked_def divide_calc_def fdiv_checked_def double_of_int_0 feq_plus_zero)

theorem operations_cannot_fail_witness:
  "divide_checked seven plus_zero = Inr plus_zero \<and>
     divide_checked seven minus_zero = Inr plus_zero"
proof -
  have "divide_calc seven plus_zero = plus_zero" "divide_calc seven minus_zero = plus_zero"
    by (simp_all add: divide_calc_zero is_zero_plus_zero is_zero_minus_zero)
  with operations_cannot_fail [of seven plus_zero] operations_cannot_fail [of seven minus_zero]
  show ?thesis by metis
qed

section \<open>Commutativity and identities\<close>

text \<open>
  C7, as amended: \<open>add(a, b)\<close> and \<open>add(b, a)\<close> are NaN for the same arguments, and
  whenever the sum is not NaN they compare equal under \<open>==\<close>; the same holds for
  \<open>multiply\<close>.  For a NaN result the comparison is false, as the counterexample shows.
\<close>

theorem commutativity:
  "(is_nan (add a b) \<longleftrightarrow> is_nan (add b a)) \<and>
   (\<not> is_nan (add a b) \<longrightarrow> feq (add a b) (add b a)) \<and>
   (is_nan (multiply a b) \<longleftrightarrow> is_nan (multiply b a)) \<and>
   (\<not> is_nan (multiply a b) \<longrightarrow> feq (multiply a b) (multiply b a))"
proof -
  have "add b a = add a b" by (simp add: add_def fadd_commute)
  moreover have "multiply b a = multiply a b" by (simp add: multiply_def fmul_commute)
  ultimately show ?thesis by (simp add: feq_refl)
qed

theorem commutativity_witness:
  "\<not> is_nan (add one seven) \<and> feq (add one seven) (add seven one) \<and>
   \<not> is_nan (multiply one seven) \<and> feq (multiply one seven) (multiply seven one)"
proof -
  have "\<not> is_nan (add one seven)"
    using classes_of_one is_finite_seven by (simp add: add_def fadd_finite_not_nan)
  moreover have "\<not> is_nan (multiply one seven)"
    using classes_of_one is_finite_seven by (simp add: multiply_def fmul_finite_not_nan)
  ultimately show ?thesis using commutativity [of one seven] by blast
qed

theorem commutativity_counterexample:
  "\<not> feq (add default_nan one) (add one default_nan) \<and>
   \<not> feq (multiply default_nan one) (multiply one default_nan)"
  by (simp add: add_def multiply_def fadd_def fmul_def feq_def is_nan_default_nan)

text \<open>
  C8, as amended: for every double \<open>a\<close> that is not a NaN, \<open>add(a, 0.0) == a\<close>,
  \<open>multiply(a, 1.0) == a\<close> and \<open>divide(a, 1.0) == a\<close>.  For a NaN all three comparisons are
  false, as the counterexample shows.
\<close>

theorem identities:
  "\<not> is_nan a \<Longrightarrow>
     feq (add a plus_zero) a \<and> feq (multiply a one) a \<and> feq (divide_calc a one) a"
  using classes_of_one
  by (simp add: add_def multiply_def divide_calc_nonzero fadd_plus_zero fmul_one fdiv_one)

theorem identities_witness:
  "\<not> is_nan seven \<and>
     feq (add seven plus_zero) seven \<and> feq (multiply seven one) seven \<and>
     feq (divide_calc seven one) seven"
  using identities [OF not_nan_seven] not_nan_seven by blast

theorem identities_counterexample:
  "\<not> feq (add default_nan plus_zero) default_nan \<and>
   \<not> feq (multiply default_nan one) default_nan \<and>
   \<not> feq (divide_calc default_nan one) default_nan"
  by (simp add: feq_def is_nan_default_nan)

section \<open>The four operations deliver correctly rounded results\<close>

text \<open>
  C4: for finite doubles \<open>a\<close> and \<open>b\<close>, \<open>add(a, b)\<close> is the IEEE-754 sum: the exact sum of
  the two values rounded to nearest, ties to even, with overflow to the infinity of the
  same sign; an exact sum of zero is \<open>-0.0\<close> if both operands are negative and \<open>+0.0\<close>
  otherwise.
\<close>

theorem add_correctly_rounded:
  assumes "is_finite a" "is_finite b"
  shows "correctly_rounded (value_of a + value_of b) (add a b) \<and>
    (value_of a + value_of b = 0 \<longrightarrow> add a b = zero (sign_bit a \<and> sign_bit b))"
proof -
  define s where "s = signed_units a + signed_units b"
  have x: "value_of a + value_of b = of_int s / 2 ^ 1074"
    unfolding value_of_def s_def by (simp only: of_int_add add_divide_distrib)
  have x0: "value_of a + value_of b = 0 \<longleftrightarrow> s = 0" unfolding x by simp
  show ?thesis
  proof (cases "s = 0")
    case True
    with assms have "add a b = zero (sign_bit a \<and> sign_bit b)"
      by (simp add: add_def fadd_finite s_def)
    with True show ?thesis unfolding x by (simp add: correctly_rounded_zero)
  next
    case False
    with assms have "add a b = pack (s < 0) (round_mag (nat \<bar>s\<bar>) 1)"
      by (simp add: add_def fadd_finite s_def Let_def)
    then have "correctly_rounded (value_of a + value_of b) (add a b)"
      unfolding x by (simp only: round_int_correct)
    with False x0 show ?thesis by blast
  qed
qed

theorem add_correctly_rounded_witness:
  "is_finite tenth \<and> is_finite fifth \<and> add tenth fifth = three_tenths_up \<and>
     correctly_rounded (value_of tenth + value_of fifth) three_tenths_up"
  using add_correctly_rounded [OF inexact_finite] inexact_finite scenario_inexact_add
  by simp

text \<open>
  C5: for finite doubles \<open>a\<close> and \<open>b\<close>, the subtraction (the function \<open>substract\<close>) returns
  the IEEE-754 difference: the exact difference rounded to nearest, ties to even; an
  exact difference of zero is \<open>-0.0\<close> only for \<open>(-0.0) - (+0.0)\<close>.
\<close>

theorem substract_correctly_rounded:
  assumes "is_finite a" "is_finite b"
  shows "correctly_rounded (value_of a - value_of b) (substract a b) \<and>
    (value_of a - value_of b = 0 \<longrightarrow> substract a b = zero (sign_bit a \<and> \<not> sign_bit b))"
proof -
  define s where "s = signed_units a - signed_units b"
  have x: "value_of a - value_of b = of_int s / 2 ^ 1074"
    unfolding value_of_def s_def by (simp only: of_int_diff diff_divide_distrib)
  have x0: "value_of a - value_of b = 0 \<longleftrightarrow> s = 0" unfolding x by simp
  show ?thesis
  proof (cases "s = 0")
    case True
    with assms have "substract a b = zero (sign_bit a \<and> \<not> sign_bit b)"
      by (simp add: substract_def fsub_finite s_def)
    with True show ?thesis unfolding x by (simp add: correctly_rounded_zero)
  next
    case False
    with assms have "substract a b = pack (s < 0) (round_mag (nat \<bar>s\<bar>) 1)"
      by (simp add: substract_def fsub_finite s_def Let_def)
    then have "correctly_rounded (value_of a - value_of b) (substract a b)"
      unfolding x by (simp only: round_int_correct)
    with False x0 show ?thesis by blast
  qed
qed

theorem substract_correctly_rounded_witness:
  "is_finite five \<and> is_finite three \<and> substract five three = two \<and>
     correctly_rounded (value_of five - value_of three) two"
  using substract_correctly_rounded [OF literal_finite(5) literal_finite(3)]
    literal_finite scenario_substract
  by simp

text \<open>
  C6: for finite doubles \<open>a\<close> and \<open>b\<close>, \<open>multiply(a, b)\<close> is the IEEE-754 product: the exact
  product rounded to nearest, ties to even, with the sign of the result the exclusive or
  of the operands' signs.
\<close>

theorem multiply_correctly_rounded:
  assumes "is_finite a" "is_finite b"
  shows "correctly_rounded (value_of a * value_of b) (multiply a b) \<and>
    sign_bit (multiply a b) = (sign_bit a \<noteq> sign_bit b)"
proof -
  have S: "(of_nat (2 ^ 1074) :: rat) = 2 ^ 1074" by (simp only: of_nat_power of_nat_numeral)
  have "correctly_rounded
      ((if sign_bit a \<noteq> sign_bit b
        then - (of_nat (units a * units b) / of_nat (2 ^ 1074))
        else of_nat (units a * units b) / of_nat (2 ^ 1074)) / 2 ^ 1074)
      (pack (sign_bit a \<noteq> sign_bit b) (round_mag (units a * units b) (2 ^ 1074)))"
    by (rule pack_round_correct) simp
  moreover have "(if sign_bit a \<noteq> sign_bit b
        then - (of_nat (units a * units b) / of_nat (2 ^ 1074))
        else of_nat (units a * units b) / of_nat (2 ^ 1074)) / 2 ^ 1074
      = value_of a * value_of b"
    unfolding value_of_def signed_units_rat S of_nat_mult by (rule signed_product)
  moreover have "multiply a b
      = pack (sign_bit a \<noteq> sign_bit b) (round_mag (units a * units b) (2 ^ 1074))"
    unfolding multiply_def using assms by (rule fmul_finite)
  ultimately show ?thesis by (simp only: sign_bit_pack_round simp_thms)
qed

theorem multiply_correctly_rounded_witness:
  "is_finite four \<and> is_finite two_and_half \<and> multiply four two_and_half = ten \<and>
     correctly_rounded (value_of four * value_of two_and_half) ten"
  using multiply_correctly_rounded [OF literal_finite(4) literal_finite(2)]
    literal_finite scenario_multiply
  by simp

text \<open>
  C2: for finite doubles \<open>a\<close> and \<open>b\<close> with \<open>b\<close> not equal to zero (neither \<open>+0.0\<close> nor
  \<open>-0.0\<close>), \<open>divide(a, b)\<close> is the IEEE-754 quotient: the exact quotient rounded to
  nearest, ties to even, with the sign of the result the exclusive or of the operands'
  signs.
\<close>

theorem divide_correctly_rounded:
  assumes "is_finite a" "is_finite b" "\<not> is_zero b"
  shows "correctly_rounded (value_of a / value_of b) (divide_calc a b) \<and>
    sign_bit (divide_calc a b) = (sign_bit a \<noteq> sign_bit b)"
proof -
  have S: "(of_nat (2 ^ 1074) :: rat) = 2 ^ 1074" by (simp only: of_nat_power of_nat_numeral)
  from assms(3) have "0 < units b" by (simp add: units_eq_0 [symmetric])
  then have "correctly_rounded
      ((if sign_bit a \<noteq> sign_bit b
        then - (of_nat (units a * 2 ^ 1074) / of_nat (units b))
        else of_nat (units a * 2 ^ 1074) / of_nat (units b)) / 2 ^ 1074)
      (pack (sign_bit a \<noteq> sign_bit b) (round_mag (units a * 2 ^ 1074) (units b)))"
    by (rule pack_round_correct)
  moreover have "(if sign_bit a \<noteq> sign_bit b
        then - (of_nat (units a * 2 ^ 1074) / of_nat (units b))
        else of_nat (units a * 2 ^ 1074) / of_nat (units b)) / 2 ^ 1074
      = value_of a / value_of b"
    unfolding value_of_def signed_units_rat S of_nat_mult by (rule signed_quotient) simp
  moreover have "divide_calc a b
      = pack (sign_bit a \<noteq> sign_bit b) (round_mag (units a * 2 ^ 1074) (units b))"
  proof -
    have "divide_calc a b = fdiv a b" using assms(3) by (rule divide_calc_nonzero)
    also have "\<dots> = pack (sign_bit a \<noteq> sign_bit b) (round_mag (units a * 2 ^ 1074) (units b))"
      using assms by (rule fdiv_finite)
    finally show ?thesis .
  qed
  ultimately show ?thesis by (simp only: sign_bit_pack_round simp_thms)
qed

theorem divide_correctly_rounded_witness:
  "is_finite one \<and> is_finite three \<and> \<not> is_zero three \<and> divide_calc one three = third \<and>
     correctly_rounded (value_of one / value_of three) third"
  using divide_correctly_rounded [of one three] classes_of_one literal_finite literal_nonzero
    scenario_inexact_divide
  by simp

end
